theory Spec2Isabelle
  imports Main
begin

section \<open>Text preprocessing: \<open>ml_pipeline/preprocess.py\<close>\<close>

text \<open>
  The module holds one list, \<open>STOP_WORDS\<close>, and one function, \<open>clean_text\<close>, which
  lowercases a string, deletes ASCII punctuation, splits on whitespace, drops stop words
  and joins what is left with single spaces.

  A Python \<open>str\<close> is a sequence of code points. A \<^typ>\<open>char\<close> stands here for one code
  point in the range U+0000 .. U+00FF (\<^term>\<open>of_char c :: nat\<close> is the code point), and a
  \<^typ>\<open>string\<close> for a \<open>str\<close> over that range. On that range \<open>str.lower\<close>,
  \<open>str.isspace\<close> and \<open>str.isupper\<close> are the finite tables written out below. A
  second copy of the function, further down, runs over that range and U+2102; other
  code points above U+00FF are outside this development.
\<close>

subsection \<open>Built-ins used by the module\<close>

text \<open>\<open>str.isupper\<close> on one code point: A-Z, and U+00C0 .. U+00DE without U+00D7.\<close>

definition isupper :: "char \<Rightarrow> bool" where
  "isupper c =
     (let n = (of_char c :: nat)
      in (65 \<le> n \<and> n \<le> 90) \<or> (192 \<le> n \<and> n \<le> 222 \<and> n \<noteq> 215))"

text \<open>\<open>str.lower\<close>: every uppercase code point of the range moves up by 32.\<close>

definition lower_char :: "char \<Rightarrow> char" where
  "lower_char c = (if isupper c then char_of (of_char c + (32 :: nat)) else c)"

definition str_lower :: "string \<Rightarrow> string" where
  "str_lower s = map lower_char s"

text \<open>
  \<open>str.isspace\<close> on one code point, which is what \<open>str.split()\<close> and \<open>str.strip()\<close>
  use: U+0009 .. U+000D, U+001C .. U+0020, U+0085 and U+00A0.
\<close>

definition isspace :: "char \<Rightarrow> bool" where
  "isspace c =
     (let n = (of_char c :: nat)
      in (9 \<le> n \<and> n \<le> 13) \<or> (28 \<le> n \<and> n \<le> 32) \<or> n = 133 \<or> n = 160)"

text \<open>\<open>string.punctuation\<close>, in the order of the standard library.\<close>

definition punctuation :: string where
  "punctuation =
     [CHR ''!'', CHR 0x22, CHR ''#'', CHR ''$'', CHR ''%'', CHR ''&'', CHR 0x27, CHR ''('',
      CHR '')'', CHR ''*'', CHR ''+'', CHR '','', CHR ''-'', CHR ''.'', CHR ''/'', CHR '':'',
      CHR '';'', CHR ''<'', CHR ''='', CHR ''>'', CHR ''?'', CHR ''@'', CHR ''['', CHR 0x5C,
      CHR '']'', CHR ''^'', CHR ''_'', CHR 0x60, CHR ''{'', CHR ''|'', CHR ''}'', CHR ''~'']"

text \<open>
  \<open>re.sub(f"[{re.escape(string.punctuation)}]", "", text)\<close>: the pattern is one character
  class holding the characters of \<open>string.punctuation\<close>, and every match is replaced by
  the empty string.
\<close>

definition re_sub_punctuation :: "string \<Rightarrow> string" where
  "re_sub_punctuation s = filter (\<lambda>c. c \<notin> set punctuation) s"

text \<open>
  \<open>str.split()\<close> without a separator: skip whitespace, read up to the next whitespace
  character, repeat until the string is used up.
\<close>

function str_split :: "string \<Rightarrow> string list" where
  "str_split s =
     (case dropWhile isspace s of
        [] \<Rightarrow> []
      | c # cs \<Rightarrow>
          (c # takeWhile (\<lambda>x. \<not> isspace x) cs) # str_split (dropWhile (\<lambda>x. \<not> isspace x) cs))"
  by pat_completeness auto

termination
proof (relation "measure length")
  show "wf (measure length)" by simp
next
  fix s :: string and c cs
  assume "dropWhile isspace s = c # cs"
  then have "length s \<ge> Suc (length cs)"
    using length_dropWhile_le [of isspace s] by simp
  moreover have "length (dropWhile (\<lambda>x. \<not> isspace x) cs) \<le> length cs"
    by (rule length_dropWhile_le)
  ultimately show "(dropWhile (\<lambda>x. \<not> isspace x) cs, s) \<in> measure length"
    by simp
qed

declare str_split.simps [simp del]

text \<open>\<open>sep.join(words)\<close>.\<close>

fun str_join :: "string \<Rightarrow> string list \<Rightarrow> string" where
  "str_join sep [] = []"
| "str_join sep [w] = w"
| "str_join sep (w # ws) = w @ sep @ str_join sep ws"

text \<open>\<open>str.strip()\<close> without an argument: whitespace is removed at both ends.\<close>

definition str_strip :: "string \<Rightarrow> string" where
  "str_strip s = rev (dropWhile isspace (rev (dropWhile isspace s)))"

subsection \<open>The module\<close>

text \<open>
  What the module can read or write: its global list and the standard output, one entry
  for each \<open>print\<close> call.
\<close>

record module_state =
  STOP_WORDS :: "string list"
  stdout :: "string list"

text \<open>The state after the module is loaded.\<close>

definition module_init :: module_state where
  "module_init =
     \<lparr> STOP_WORDS =
         [''help'', ''i'', ''think'', ''got'', ''my'', ''me'', ''the'', ''a'', ''an'',
          ''please'', ''somebody'', ''do'', ''does'', ''is'', ''am'', ''are''],
       stdout = [] \<rparr>"

text \<open>
  \<open>clean_text(text)\<close>. The argument is \<open>None\<close> or a string; the result is the returned
  string and the state the call leaves behind.
\<close>

definition clean_text :: "module_state \<Rightarrow> string option \<Rightarrow> string \<times> module_state" where
  "clean_text st text =
     (case text of
        None \<Rightarrow> ([], st)
      | Some t \<Rightarrow>
          if t = [] then ([], st)
          else
            let t1 = str_lower t;
                t2 = re_sub_punctuation t1;
                words = str_split t2;
                filtered_words = filter (\<lambda>w. w \<notin> set (STOP_WORDS st)) words
            in (str_strip (str_join '' '' filtered_words), st))"

text \<open>The operation \<open>clean\<close> of the specification: a call in the freshly loaded module.\<close>

definition clean :: "string option \<Rightarrow> string" where
  "clean text = fst (clean_text module_init text)"

subsection \<open>Words and separators\<close>

text \<open>A word as \<open>str.split()\<close> returns it: not empty and free of whitespace.\<close>

definition is_token :: "string \<Rightarrow> bool" where
  "is_token w = (w \<noteq> [] \<and> (\<forall>c \<in> set w. \<not> isspace c))"

text \<open>Two space characters side by side somewhere in a string.\<close>

fun double_space :: "string \<Rightarrow> bool" where
  "double_space (a # b # s) = ((a = CHR '' '' \<and> b = CHR '' '') \<or> double_space (b # s))"
| "double_space s = False"

text \<open>
  The pieces of a string between separator characters: every separator ends a piece, so
  two separators side by side, or one at either end, leave an empty piece.
\<close>

fun split_on :: "(char \<Rightarrow> bool) \<Rightarrow> string \<Rightarrow> string list" where
  "split_on sep [] = [[]]"
| "split_on sep (c # s) =
     (if sep c then [] # split_on sep s
      else (case split_on sep s of [] \<Rightarrow> [[c]] | p # ps \<Rightarrow> (c # p) # ps))"

text \<open>The standalone space-delimited tokens of a string.\<close>

definition space_tokens :: "string \<Rightarrow> string list" where
  "space_tokens s = filter (\<lambda>t. t \<noteq> []) (split_on (\<lambda>c. c = CHR '' '') s)"

subsection \<open>The pipeline as the specification words it\<close>

text \<open>The 32 punctuation characters the specification lists.\<close>

definition spec_punctuation :: "char set" where
  "spec_punctuation =
     {CHR ''!'', CHR 0x22, CHR ''#'', CHR ''$'', CHR ''%'', CHR ''&'', CHR 0x27, CHR ''('',
      CHR '')'', CHR ''*'', CHR ''+'', CHR '','', CHR ''-'', CHR ''.'', CHR ''/'', CHR '':'',
      CHR '';'', CHR ''<'', CHR ''='', CHR ''>'', CHR ''?'', CHR ''@'', CHR ''['', CHR 0x5C,
      CHR '']'', CHR ''^'', CHR ''_'', CHR 0x60, CHR ''{'', CHR ''|'', CHR ''}'', CHR ''~''}"

text \<open>The stop-word set the specification lists.\<close>

definition spec_stop_words :: "string set" where
  "spec_stop_words =
     {''help'', ''i'', ''think'', ''got'', ''my'', ''me'', ''the'', ''a'', ''an'', ''please'',
      ''somebody'', ''do'', ''does'', ''is'', ''am'', ''are''}"

text \<open>Split on runs of whitespace, discarding empty tokens.\<close>

definition spec_tokens :: "string \<Rightarrow> string list" where
  "spec_tokens s = filter (\<lambda>t. t \<noteq> []) (split_on isspace s)"

text \<open>Join with a single space, in order.\<close>

definition spec_join :: "string list \<Rightarrow> string" where
  "spec_join ts = (case ts of [] \<Rightarrow> [] | t # r \<Rightarrow> t @ concat (map (\<lambda>u. CHR '' '' # u) r))"

text \<open>
  Lowercase the whole string, delete every punctuation character, split, drop the stop
  words, join.
\<close>

definition spec_clean :: "string \<Rightarrow> string" where
  "spec_clean s =
     spec_join
       (filter (\<lambda>t. t \<notin> spec_stop_words)
          (spec_tokens (filter (\<lambda>c. c \<notin> spec_punctuation) (str_lower s))))"


subsection \<open>The same function over a wider range of code points\<close>

text \<open>
  The uppercase letters of U+0000 .. U+00FF all have a lowercase form. Above that range
  the interpreter has uppercase code points without one. U+2102, DOUBLE-STRUCK CAPITAL C,
  is one of them: its category is Lu, \<open>str.isupper\<close> holds of it, \<open>str.lower\<close> returns it
  unchanged, it is not whitespace and it is not in \<open>string.punctuation\<close>.

  A \<open>code_point\<close> is a code point of U+0000 .. U+00FF or U+2102. The built-ins and the
  function are written once more over strings of such code points, call for call as
  above; a stop word is a string of the first kind.
\<close>

datatype code_point = Latin1 char | U2102

fun cp_isupper :: "code_point \<Rightarrow> bool" where
  "cp_isupper (Latin1 c) = isupper c"
| "cp_isupper U2102 = True"

fun cp_lower :: "code_point \<Rightarrow> code_point" where
  "cp_lower (Latin1 c) = Latin1 (lower_char c)"
| "cp_lower U2102 = U2102"

fun cp_isspace :: "code_point \<Rightarrow> bool" where
  "cp_isspace (Latin1 c) = isspace c"
| "cp_isspace U2102 = False"

fun cp_in_punctuation :: "code_point \<Rightarrow> bool" where
  "cp_in_punctuation (Latin1 c) = (c \<in> set punctuation)"
| "cp_in_punctuation U2102 = False"

text \<open>The space character, U+0020.\<close>

definition cp_space :: code_point where
  "cp_space = Latin1 (CHR '' '')"

definition wide_lower :: "code_point list \<Rightarrow> code_point list" where
  "wide_lower s = map cp_lower s"

definition wide_re_sub_punctuation :: "code_point list \<Rightarrow> code_point list" where
  "wide_re_sub_punctuation s = filter (\<lambda>c. \<not> cp_in_punctuation c) s"

function wide_split :: "code_point list \<Rightarrow> code_point list list" where
  "wide_split s =
     (case dropWhile cp_isspace s of
        [] \<Rightarrow> []
      | c # cs \<Rightarrow>
          (c # takeWhile (\<lambda>x. \<not> cp_isspace x) cs)
            # wide_split (dropWhile (\<lambda>x. \<not> cp_isspace x) cs))"
  by pat_completeness auto

termination
proof (relation "measure length")
  show "wf (measure length)" by simp
next
  fix s :: "code_point list" and c cs
  assume "dropWhile cp_isspace s = c # cs"
  then have "length s \<ge> Suc (length cs)"
    using length_dropWhile_le [of cp_isspace s] by simp
  moreover have "length (dropWhile (\<lambda>x. \<not> cp_isspace x) cs) \<le> length cs"
    by (rule length_dropWhile_le)
  ultimately show "(dropWhile (\<lambda>x. \<not> cp_isspace x) cs, s) \<in> measure length"
    by simp
qed

declare wide_split.simps [simp del]

fun wide_join :: "code_point list \<Rightarrow> code_point list list \<Rightarrow> code_point list" where
  "wide_join sep [] = []"
| "wide_join sep [w] = w"
| "wide_join sep (w # ws) = w @ sep @ wide_join sep ws"

definition wide_strip :: "code_point list \<Rightarrow> code_point list" where
  "wide_strip s = rev (dropWhile cp_isspace (rev (dropWhile cp_isspace s)))"

definition wide_clean_text ::
  "module_state \<Rightarrow> code_point list option \<Rightarrow> code_point list \<times> module_state" where
  "wide_clean_text st text =
     (case text of
        None \<Rightarrow> ([], st)
      | Some t \<Rightarrow>
          if t = [] then ([], st)
          else
            let t1 = wide_lower t;
                t2 = wide_re_sub_punctuation t1;
                words = wide_split t2;
                filtered_words =
                  filter (\<lambda>w. w \<notin> set (map (map Latin1) (STOP_WORDS st))) words
            in (wide_strip (wide_join [cp_space] filtered_words), st))"

definition wide_clean :: "code_point list option \<Rightarrow> code_point list" where
  "wide_clean text = fst (wide_clean_text module_init text)"

definition wide_is_token :: "code_point list \<Rightarrow> bool" where
  "wide_is_token w = (w \<noteq> [] \<and> (\<forall>c \<in> set w. \<not> cp_isspace c))"

fun wide_double_space :: "code_point list \<Rightarrow> bool" where
  "wide_double_space (a # b # s) = ((a = cp_space \<and> b = cp_space) \<or> wide_double_space (b # s))"
| "wide_double_space s = False"

section \<open>Characters\<close>

lemma of_char_lower_upper:
  "isupper c \<Longrightarrow> (of_char (lower_char c) :: nat) = of_char c + 32"
  by (auto simp: isupper_def lower_char_def Let_def)

lemma not_isupper_lower_char: "\<not> isupper (lower_char c)"
proof (cases "isupper c")
  case True
  then show ?thesis using of_char_lower_upper [OF True]
    by (auto simp: isupper_def Let_def)
next
  case False
  then show ?thesis by (simp add: lower_char_def)
qed

lemma lower_char_fixed: "\<not> isupper c \<Longrightarrow> lower_char c = c"
  by (simp add: lower_char_def)

lemma lower_char_idem: "lower_char (lower_char c) = lower_char c"
  by (simp add: lower_char_fixed not_isupper_lower_char)

lemma isspace_not_isupper: "isspace c \<Longrightarrow> \<not> isupper c"
  by (auto simp: isspace_def isupper_def Let_def)

lemma punctuation_not_isupper: "c \<in> set punctuation \<Longrightarrow> \<not> isupper c"
  by (auto simp: punctuation_def isupper_def Let_def)

lemma punctuation_not_isspace: "c \<in> set punctuation \<Longrightarrow> \<not> isspace c"
  by (auto simp: punctuation_def isspace_def Let_def)

lemma isspace_space: "isspace (CHR '' '')"
  by (simp add: isspace_def)

lemma space_not_punctuation: "CHR '' '' \<notin> set punctuation"
  by (simp add: punctuation_def)

section \<open>Splitting\<close>

lemma str_split_Nil: "str_split [] = []"
  by (simp add: str_split.simps)

lemma str_split_space: "isspace c \<Longrightarrow> str_split (c # s) = str_split s"
  by (subst str_split.simps, subst (2) str_split.simps) simp

lemma str_split_nonspace:
  "\<not> isspace c \<Longrightarrow> str_split (c # s) =
     (c # takeWhile (\<lambda>x. \<not> isspace x) s) # str_split (dropWhile (\<lambda>x. \<not> isspace x) s)"
  by (subst str_split.simps) simp

lemma str_split_is_token: "w \<in> set (str_split s) \<Longrightarrow> is_token w"
proof (induction s arbitrary: w rule: str_split.induct)
  case (1 s)
  show ?case
  proof (cases "dropWhile isspace s")
    case Nil
    with "1.prems" show ?thesis by (simp add: str_split.simps [of s])
  next
    case (Cons c cs)
    have c: "\<not> isspace c" using hd_dropWhile [of isspace s] Cons by simp
    from "1.prems" Cons have "w = c # takeWhile (\<lambda>x. \<not> isspace x) cs
        \<or> w \<in> set (str_split (dropWhile (\<lambda>x. \<not> isspace x) cs))"
      by (simp add: str_split.simps [of s])
    then show ?thesis
    proof
      assume "w = c # takeWhile (\<lambda>x. \<not> isspace x) cs"
      then show ?thesis using c by (auto simp: is_token_def dest: set_takeWhileD)
    next
      assume "w \<in> set (str_split (dropWhile (\<lambda>x. \<not> isspace x) cs))"
      then show ?thesis using "1.IH" [OF Cons] by simp
    qed
  qed
qed

lemma str_split_chars: "w \<in> set (str_split s) \<Longrightarrow> set w \<subseteq> set s"
proof (induction s arbitrary: w rule: str_split.induct)
  case (1 s)
  show ?case
  proof (cases "dropWhile isspace s")
    case Nil
    with "1.prems" show ?thesis by (simp add: str_split.simps [of s])
  next
    case (Cons c cs)
    have sub: "set (c # cs) \<subseteq> set s"
      using set_dropWhileD [of _ isspace s] Cons by (metis subsetI)
    from "1.prems" Cons have "w = c # takeWhile (\<lambda>x. \<not> isspace x) cs
        \<or> w \<in> set (str_split (dropWhile (\<lambda>x. \<not> isspace x) cs))"
      by (simp add: str_split.simps [of s])
    then show ?thesis
    proof
      assume "w = c # takeWhile (\<lambda>x. \<not> isspace x) cs"
      then show ?thesis using sub by (auto dest: set_takeWhileD)
    next
      assume "w \<in> set (str_split (dropWhile (\<lambda>x. \<not> isspace x) cs))"
      then have "set w \<subseteq> set (dropWhile (\<lambda>x. \<not> isspace x) cs)"
        using "1.IH" [OF Cons] by simp
      then show ?thesis using sub by (auto dest: set_dropWhileD)
    qed
  qed
qed

lemma str_split_token_append:
  assumes "is_token w" and "r = [] \<or> isspace (hd r)"
  shows "str_split (w @ r) = w # str_split r"
proof -
  from assms(1) obtain c cs where w: "w = c # cs" and c: "\<not> isspace c"
    and cs: "\<forall>x \<in> set cs. \<not> isspace x"
    by (cases w) (auto simp: is_token_def)
  have tw: "takeWhile (\<lambda>x. \<not> isspace x) (cs @ r) = cs"
    using cs assms(2) by (cases r) auto
  have dw: "dropWhile (\<lambda>x. \<not> isspace x) (cs @ r) = r"
    using cs assms(2) by (cases r) auto
  show ?thesis using str_split_nonspace [OF c, of "cs @ r"] by (simp add: w tw dw)
qed

lemma str_split_join:
  "\<forall>w \<in> set ws. is_token w \<Longrightarrow> str_split (str_join '' '' ws) = ws"
proof (induction "'' ''" ws rule: str_join.induct)
  case 1
  then show ?case by (simp add: str_split_Nil)
next
  case (2 w)
  then show ?case using str_split_token_append [of w "[]"] by (simp add: str_split_Nil)
next
  case (3 w v vs)
  have "str_split (w @ '' '' @ str_join '' '' (v # vs)) = w # str_split ('' '' @ str_join '' '' (v # vs))"
    using 3 by (intro str_split_token_append) (simp_all add: isspace_space)
  also have "str_split ('' '' @ str_join '' '' (v # vs)) = str_split (str_join '' '' (v # vs))"
    by (simp add: str_split_space isspace_space)
  also have "\<dots> = v # vs" using 3 by simp
  finally show ?case by simp
qed

lemma str_strip_id:
  "s = [] \<or> (\<not> isspace (hd s) \<and> \<not> isspace (last s)) \<Longrightarrow> str_strip s = s"
proof (cases s)
  case Nil
  then show ?thesis by (simp add: str_strip_def)
next
  case (Cons c cs)
  assume "s = [] \<or> (\<not> isspace (hd s) \<and> \<not> isspace (last s))"
  with Cons have h: "\<not> isspace (hd s)" and l: "\<not> isspace (last s)" by auto
  have 1: "dropWhile isspace s = s" using h Cons by simp
  obtain x xs where r: "rev s = x # xs" using Cons by (cases "rev s") auto
  have "hd (rev s) = last s" using Cons by (simp add: hd_rev)
  then have "x = last s" using r by simp
  then have "dropWhile isspace (x # xs) = x # xs" using l by simp
  then have 2: "dropWhile isspace (rev s) = rev s" unfolding r .
  show ?thesis by (simp add: str_strip_def 1 2)
qed

lemma str_join_ends:
  "ws \<noteq> [] \<Longrightarrow> \<forall>w \<in> set ws. is_token w \<Longrightarrow>
     str_join '' '' ws \<noteq> [] \<and> hd (str_join '' '' ws) = hd (hd ws)
     \<and> last (str_join '' '' ws) = last (last ws)"
proof (induction "'' ''" ws rule: str_join.induct)
  case 1
  then show ?case by simp
next
  case (2 w)
  then show ?case by (simp add: is_token_def)
next
  case (3 w v vs)
  then have "w \<noteq> []" and "str_join '' '' (v # vs) \<noteq> []"
    and "last (str_join '' '' (v # vs)) = last (last (v # vs))"
    by (auto simp: is_token_def)
  then show ?case by simp
qed

lemma str_strip_join:
  assumes "\<forall>w \<in> set ws. is_token w"
  shows "str_strip (str_join '' '' ws) = str_join '' '' ws"
proof (cases ws)
  case Nil
  then show ?thesis by (simp add: str_strip_def)
next
  case (Cons v vs)
  then have ne: "ws \<noteq> []" by simp
  have "is_token (hd ws)" "is_token (last ws)" using assms ne by auto
  then have "\<not> isspace (hd (hd ws))" "\<not> isspace (last (last ws))"
    by (auto simp: is_token_def)
  then show ?thesis using str_join_ends [OF ne assms] by (intro str_strip_id) simp
qed

lemma set_str_join: "set (str_join sep ws) \<subseteq> set sep \<union> (\<Union>w \<in> set ws. set w)"
  by (induction sep ws rule: str_join.induct) auto

section \<open>The function as one expression\<close>

lemma filtered_tokens:
  "\<forall>w \<in> set (filter P (str_split s)). is_token w"
  by (auto intro: str_split_is_token)

lemma clean_text_Some:
  "fst (clean_text st (Some t)) =
     str_join '' '' (filter (\<lambda>w. w \<notin> set (STOP_WORDS st))
       (str_split (re_sub_punctuation (str_lower t))))"
proof (cases "t = []")
  case True
  then show ?thesis
    by (simp add: clean_text_def str_lower_def re_sub_punctuation_def str_split_Nil)
next
  case False
  then show ?thesis
    by (simp add: clean_text_def Let_def str_strip_join filtered_tokens)
qed

lemma clean_text_state: "snd (clean_text st text) = st"
  by (simp add: clean_text_def Let_def split: option.splits)

lemma clean_Some:
  "clean (Some t) =
     str_join '' '' (filter (\<lambda>w. w \<notin> set (STOP_WORDS module_init))
       (str_split (re_sub_punctuation (str_lower t))))"
  by (simp add: clean_def clean_text_Some)

lemma clean_None: "clean None = []"
  by (simp add: clean_def clean_text_def)

lemma str_split_only_space: "\<forall>c \<in> set s. isspace c \<Longrightarrow> str_split s = []"
  by (induction s) (simp_all add: str_split_Nil str_split_space)

section \<open>What the result is made of\<close>

lemma re_sub_lower_chars:
  "c \<in> set (re_sub_punctuation (str_lower t)) \<Longrightarrow> c \<notin> set punctuation \<and> \<not> isupper c"
  by (auto simp: re_sub_punctuation_def str_lower_def not_isupper_lower_char)

lemma clean_chars:
  assumes "c \<in> set (clean x)"
  shows "c = CHR '' '' \<or> (\<exists>t. x = Some t \<and> c \<in> set (re_sub_punctuation (str_lower t)))"
proof (cases x)
  case None
  with assms show ?thesis by (simp add: clean_None)
next
  case (Some t)
  let ?ws = "filter (\<lambda>w. w \<notin> set (STOP_WORDS module_init))
               (str_split (re_sub_punctuation (str_lower t)))"
  from assms Some have "c \<in> set (str_join '' '' ?ws)" by (simp add: clean_Some)
  then have "c \<in> set '' '' \<union> (\<Union>w \<in> set ?ws. set w)"
    using set_str_join [of "'' ''" ?ws] by blast
  then show ?thesis using Some str_split_chars by fastforce
qed

lemma clean_char_plain:
  "c \<in> set (clean x) \<Longrightarrow> c \<notin> set punctuation \<and> \<not> isupper c"
  using clean_chars [of c x] re_sub_lower_chars space_not_punctuation
    isspace_not_isupper [OF isspace_space] by blast

lemma clean_ends:
  assumes "clean x \<noteq> []"
  shows "\<not> isspace (hd (clean x)) \<and> \<not> isspace (last (clean x))"
proof (cases x)
  case None
  with assms show ?thesis by (simp add: clean_None)
next
  case (Some t)
  let ?ws = "filter (\<lambda>w. w \<notin> set (STOP_WORDS module_init))
               (str_split (re_sub_punctuation (str_lower t)))"
  have c: "clean x = str_join '' '' ?ws" using Some by (simp add: clean_Some)
  have tok: "\<forall>w \<in> set ?ws. is_token w" by (rule filtered_tokens)
  have ne: "?ws \<noteq> []" using assms c by auto
  then have "is_token (hd ?ws)" "is_token (last ?ws)" using tok by (auto simp del: set_filter)
  then have "\<not> isspace (hd (hd ?ws))" "\<not> isspace (last (last ?ws))"
    by (auto simp: is_token_def)
  then show ?thesis using str_join_ends [OF ne tok] c by simp
qed

lemma double_space_skip:
  "CHR '' '' \<notin> set w \<Longrightarrow> double_space (w @ r) = double_space r"
proof (induction w)
  case Nil
  then show ?case by simp
next
  case (Cons a w)
  then have a: "a \<noteq> CHR '' ''" and IH: "double_space (w @ r) = double_space r" by auto
  show ?case
  proof (cases "w @ r")
    case Nil
    then show ?thesis by simp
  next
    case (Cons b s)
    then show ?thesis using a IH by simp
  qed
qed

lemma double_space_append: "double_space (u @ CHR '' '' # CHR '' '' # v)"
proof (induction u)
  case Nil
  then show ?case by simp
next
  case (Cons a u)
  then show ?case by (cases "u @ CHR '' '' # CHR '' '' # v") simp_all
qed

lemma token_no_space: "is_token w \<Longrightarrow> CHR '' '' \<notin> set w"
  using isspace_space by (auto simp: is_token_def)

lemma join_no_double_space:
  "\<forall>w \<in> set ws. is_token w \<Longrightarrow> \<not> double_space (str_join '' '' ws)"
proof (induction "'' ''" ws rule: str_join.induct)
  case 1
  then show ?case by simp
next
  case (2 w)
  then show ?case using double_space_skip [of w "[]"] token_no_space by simp
next
  case (3 w v vs)
  let ?J = "str_join '' '' (v # vs)"
  have tok: "\<forall>w \<in> set (v # vs). is_token w" using 3 by simp
  have J: "?J \<noteq> []" "hd ?J = hd v" using str_join_ends [OF _ tok] by simp_all
  have "is_token v" using 3 by simp
  then have "hd v \<noteq> CHR '' ''" using token_no_space [of v] by (cases v) (auto simp: is_token_def)
  with J obtain j J' where Jc: "?J = j # J'" and j: "j \<noteq> CHR '' ''" by (cases ?J) auto
  have "\<not> double_space ?J" using 3 by simp
  then have "\<not> double_space (CHR '' '' # ?J)" using j unfolding Jc by simp
  moreover have "CHR '' '' \<notin> set w" using 3 token_no_space by simp
  ultimately have "\<not> double_space (w @ CHR '' '' # ?J)" by (simp add: double_space_skip)
  then show ?case by simp
qed

lemma clean_no_double_space: "\<not> double_space (clean x)"
proof (cases x)
  case None
  then show ?thesis by (simp add: clean_None)
next
  case (Some t)
  then show ?thesis by (simp add: clean_Some join_no_double_space filtered_tokens)
qed

lemma clean_fixed_chars:
  "str_lower (clean x) = clean x" "re_sub_punctuation (clean x) = clean x"
proof -
  have "\<forall>c \<in> set (clean x). lower_char c = c"
    using clean_char_plain lower_char_fixed by blast
  then show "str_lower (clean x) = clean x" by (simp add: str_lower_def map_idI)
  show "re_sub_punctuation (clean x) = clean x"
    using clean_char_plain by (simp add: re_sub_punctuation_def)
qed

section \<open>The two ways of splitting and joining agree\<close>

lemma split_on_unfold:
  "split_on P s =
     takeWhile (\<lambda>x. \<not> P x) s #
       (case dropWhile (\<lambda>x. \<not> P x) s of [] \<Rightarrow> [] | d # r \<Rightarrow> split_on P r)"
  by (induction s) (auto split: list.splits)

lemma spec_tokens_str_split: "spec_tokens s = str_split s"
proof (induction s rule: length_induct)
  case (1 s)
  show ?case
  proof (cases s)
    case Nil
    then show ?thesis by (simp add: spec_tokens_def str_split_Nil)
  next
    case (Cons c r)
    show ?thesis
    proof (cases "isspace c")
      case True
      have "spec_tokens r = str_split r" using 1 Cons by simp
      then show ?thesis using True Cons by (simp add: spec_tokens_def str_split_space)
    next
      case False
      define d where "d = dropWhile (\<lambda>x. \<not> isspace x) r"
      have len: "length d < length s"
        using length_dropWhile_le [of "\<lambda>x. \<not> isspace x" r] Cons by (simp add: d_def)
      have rest: "filter (\<lambda>t. t \<noteq> [])
                    (case d of [] \<Rightarrow> [] | e # r' \<Rightarrow> split_on isspace r') = str_split d"
      proof (cases d)
        case Nil
        then show ?thesis by (simp add: str_split_Nil)
      next
        case (Cons e r')
        then have e: "isspace e" using hd_dropWhile [of "\<lambda>x. \<not> isspace x" r] by (auto simp: d_def)
        have "length r' < length s" using len Cons by simp
        then have "spec_tokens r' = str_split r'" using 1 by simp
        then show ?thesis using Cons e by (simp add: spec_tokens_def str_split_space)
      qed
      have "split_on isspace s =
              (c # takeWhile (\<lambda>x. \<not> isspace x) r) #
                (case d of [] \<Rightarrow> [] | e # r' \<Rightarrow> split_on isspace r')"
        using False Cons split_on_unfold [of isspace s] by (simp add: d_def)
      then have "spec_tokens s = (c # takeWhile (\<lambda>x. \<not> isspace x) r) # str_split d"
        using rest by (simp add: spec_tokens_def)
      then show ?thesis using False Cons by (simp add: str_split_nonspace d_def)
    qed
  qed
qed

lemma spec_join_str_join: "spec_join ws = str_join '' '' ws"
  by (induction "'' ''" ws rule: str_join.induct) (simp_all add: spec_join_def)

lemma punctuation_spec: "set punctuation = spec_punctuation"
  by (simp add: punctuation_def spec_punctuation_def)

lemma stop_words_spec: "set (STOP_WORDS module_init) = spec_stop_words"
  by (simp add: module_init_def spec_stop_words_def)

section \<open>The space-delimited tokens of the result\<close>

lemma split_on_no_sep: "\<forall>c \<in> set w. \<not> P c \<Longrightarrow> split_on P w = [w]"
  by (induction w) simp_all

lemma split_on_append:
  "\<forall>c \<in> set w. \<not> P c \<Longrightarrow> P d \<Longrightarrow> split_on P (w @ d # r) = w # split_on P r"
  by (induction w) simp_all

lemma split_on_join:
  "ws \<noteq> [] \<Longrightarrow> \<forall>w \<in> set ws. is_token w \<Longrightarrow>
     split_on (\<lambda>c. c = CHR '' '') (str_join '' '' ws) = ws"
proof (induction "'' ''" ws rule: str_join.induct)
  case 1
  then show ?case by simp
next
  case (2 w)
  then have "\<forall>c \<in> set w. \<not> c = CHR '' ''" using token_no_space [of w] by auto
  then show ?case by (simp add: split_on_no_sep [of w "\<lambda>c. c = CHR '' ''"])
next
  case (3 w v vs)
  have "\<forall>c \<in> set w. \<not> c = CHR '' ''" using 3 token_no_space [of w] by auto
  then have "split_on (\<lambda>c. c = CHR '' '') (w @ CHR '' '' # str_join '' '' (v # vs))
               = w # split_on (\<lambda>c. c = CHR '' '') (str_join '' '' (v # vs))"
    by (intro split_on_append) simp_all
  then show ?case using 3 by simp
qed

lemma space_tokens_join:
  assumes "\<forall>w \<in> set ws. is_token w"
  shows "space_tokens (str_join '' '' ws) = ws"
proof (cases "ws = []")
  case True
  then show ?thesis by (simp add: space_tokens_def)
next
  case False
  have "filter (\<lambda>t. t \<noteq> []) ws = ws" using assms by (simp add: is_token_def filter_id_conv)
  then show ?thesis using split_on_join [OF False assms] by (simp add: space_tokens_def)
qed

lemma stop_words_lower: "sw \<in> spec_stop_words \<Longrightarrow> str_lower sw = sw"
  by (auto simp: spec_stop_words_def str_lower_def lower_char_def isupper_def)

lemma space_tokens_clean:
  assumes "w \<in> set (space_tokens (clean x))"
  shows "w \<notin> spec_stop_words \<and> str_lower w = w"
proof (cases x)
  case None
  with assms show ?thesis by (simp add: clean_None space_tokens_def)
next
  case (Some t)
  let ?ws = "filter (\<lambda>w. w \<notin> set (STOP_WORDS module_init))
               (str_split (re_sub_punctuation (str_lower t)))"
  have "space_tokens (clean x) = ?ws"
    using Some space_tokens_join [OF filtered_tokens] by (simp add: clean_Some)
  with assms have w: "w \<in> set ?ws" by simp
  then have "w \<notin> spec_stop_words" by (simp add: stop_words_spec)
  moreover have "set w \<subseteq> set (re_sub_punctuation (str_lower t))"
    using w str_split_chars by simp
  then have "\<forall>c \<in> set w. lower_char c = c"
    using re_sub_lower_chars lower_char_fixed by blast
  then have "str_lower w = w" by (simp add: str_lower_def map_idI)
  ultimately show ?thesis by simp
qed

section \<open>Deleting punctuation\<close>

lemma punctuation_codes:
  "c \<in> set punctuation \<Longrightarrow>
     (33 \<le> (of_char c :: nat) \<and> (of_char c :: nat) \<le> 47) \<or> (58 \<le> (of_char c :: nat) \<and> (of_char c :: nat) \<le> 64)
     \<or> (91 \<le> (of_char c :: nat) \<and> (of_char c :: nat) \<le> 96) \<or> (123 \<le> (of_char c :: nat) \<and> (of_char c :: nat) \<le> 126)"
  by (auto simp: punctuation_def)

lemma lower_char_plain:
  assumes "\<not> isspace c" and "c \<notin> set punctuation"
  shows "\<not> isspace (lower_char c) \<and> lower_char c \<notin> set punctuation"
proof (cases "isupper c")
  case False
  then show ?thesis using assms by (simp add: lower_char_def)
next
  case True
  have n: "(of_char (lower_char c) :: nat) = of_char c + 32" by (rule of_char_lower_upper [OF True])
  have r: "(97 \<le> (of_char (lower_char c) :: nat) \<and> (of_char (lower_char c) :: nat) \<le> 122)
        \<or> (224 \<le> (of_char (lower_char c) :: nat) \<and> (of_char (lower_char c) :: nat) \<le> 254)"
    using True unfolding n by (auto simp: isupper_def Let_def)
  have "\<not> isspace (lower_char c)" using r by (auto simp: isspace_def Let_def)
  moreover have "lower_char c \<notin> set punctuation" using r punctuation_codes [of "lower_char c"] by auto
  ultimately show ?thesis by simp
qed

lemma re_sub_punctuation_append:
  "re_sub_punctuation (u @ v) = re_sub_punctuation u @ re_sub_punctuation v"
  by (simp add: re_sub_punctuation_def)

lemma re_sub_punctuation_all: "set p \<subseteq> set punctuation \<Longrightarrow> re_sub_punctuation p = []"
  by (auto simp: re_sub_punctuation_def filter_empty_conv)

lemma re_sub_punctuation_none:
  "\<forall>c \<in> set u. c \<notin> set punctuation \<Longrightarrow> re_sub_punctuation u = u"
  by (simp add: re_sub_punctuation_def)

lemma str_lower_punctuation: "set p \<subseteq> set punctuation \<Longrightarrow> str_lower p = p"
  using punctuation_not_isupper lower_char_fixed by (auto simp: str_lower_def intro!: map_idI)

section \<open>The loop of the split\<close>

lemma str_split_total: "str_split_dom s"
proof (induction s rule: str_split.induct)
  case (1 s)
  show ?case
  proof (rule accpI)
    fix y
    assume "str_split_rel y s"
    then obtain c cs where "dropWhile isspace s = c # cs"
      and "y = dropWhile (\<lambda>x. \<not> isspace x) cs"
      by (cases rule: str_split_rel.cases) auto
    then show "str_split_dom y" using 1 by simp
  qed
qed

section \<open>The function over the wider range of code points\<close>

lemma cp_isspace_space: "cp_isspace cp_space"
  by (simp add: cp_space_def isspace_space)

lemma cp_space_plain: "\<not> cp_in_punctuation cp_space \<and> cp_lower cp_space = cp_space"
  using isspace_not_isupper [OF isspace_space]
  by (simp add: cp_space_def space_not_punctuation lower_char_fixed)

lemma cp_lower_idem: "cp_lower (cp_lower c) = cp_lower c"
  by (cases c) (simp_all add: lower_char_idem)

lemma cp_lower_latin1: "cp_lower c = Latin1 a \<Longrightarrow> \<not> isupper a"
  by (cases c) (auto simp: not_isupper_lower_char)

lemma wide_split_Nil: "wide_split [] = []"
  by (simp add: wide_split.simps)

lemma wide_split_is_token: "w \<in> set (wide_split s) \<Longrightarrow> wide_is_token w"
proof (induction s arbitrary: w rule: wide_split.induct)
  case (1 s)
  show ?case
  proof (cases "dropWhile cp_isspace s")
    case Nil
    with "1.prems" show ?thesis by (simp add: wide_split.simps [of s])
  next
    case (Cons c cs)
    have c: "\<not> cp_isspace c" using hd_dropWhile [of cp_isspace s] Cons by simp
    from "1.prems" Cons have "w = c # takeWhile (\<lambda>x. \<not> cp_isspace x) cs
        \<or> w \<in> set (wide_split (dropWhile (\<lambda>x. \<not> cp_isspace x) cs))"
      by (simp add: wide_split.simps [of s])
    then show ?thesis
    proof
      assume "w = c # takeWhile (\<lambda>x. \<not> cp_isspace x) cs"
      then show ?thesis using c by (auto simp: wide_is_token_def dest: set_takeWhileD)
    next
      assume "w \<in> set (wide_split (dropWhile (\<lambda>x. \<not> cp_isspace x) cs))"
      then show ?thesis using "1.IH" [OF Cons] by simp
    qed
  qed
qed

lemma wide_split_chars: "w \<in> set (wide_split s) \<Longrightarrow> set w \<subseteq> set s"
proof (induction s arbitrary: w rule: wide_split.induct)
  case (1 s)
  show ?case
  proof (cases "dropWhile cp_isspace s")
    case Nil
    with "1.prems" show ?thesis by (simp add: wide_split.simps [of s])
  next
    case (Cons c cs)
    have sub: "set (c # cs) \<subseteq> set s"
      using set_dropWhileD [of _ cp_isspace s] Cons by (metis subsetI)
    from "1.prems" Cons have "w = c # takeWhile (\<lambda>x. \<not> cp_isspace x) cs
        \<or> w \<in> set (wide_split (dropWhile (\<lambda>x. \<not> cp_isspace x) cs))"
      by (simp add: wide_split.simps [of s])
    then show ?thesis
    proof
      assume "w = c # takeWhile (\<lambda>x. \<not> cp_isspace x) cs"
      then show ?thesis using sub by (auto dest: set_takeWhileD)
    next
      assume "w \<in> set (wide_split (dropWhile (\<lambda>x. \<not> cp_isspace x) cs))"
      then have "set w \<subseteq> set (dropWhile (\<lambda>x. \<not> cp_isspace x) cs)"
        using "1.IH" [OF Cons] by simp
      then show ?thesis using sub by (auto dest: set_dropWhileD)
    qed
  qed
qed

lemma wide_strip_id:
  "s = [] \<or> (\<not> cp_isspace (hd s) \<and> \<not> cp_isspace (last s)) \<Longrightarrow> wide_strip s = s"
proof (cases s)
  case Nil
  then show ?thesis by (simp add: wide_strip_def)
next
  case (Cons c cs)
  assume "s = [] \<or> (\<not> cp_isspace (hd s) \<and> \<not> cp_isspace (last s))"
  with Cons have h: "\<not> cp_isspace (hd s)" and l: "\<not> cp_isspace (last s)" by auto
  have 1: "dropWhile cp_isspace s = s" using h Cons by simp
  obtain x xs where r: "rev s = x # xs" using Cons by (cases "rev s") auto
  have "hd (rev s) = last s" using Cons by (simp add: hd_rev)
  then have "x = last s" using r by simp
  then have "dropWhile cp_isspace (x # xs) = x # xs" using l by simp
  then have 2: "dropWhile cp_isspace (rev s) = rev s" unfolding r .
  show ?thesis by (simp add: wide_strip_def 1 2)
qed

lemma wide_join_ends:
  "ws \<noteq> [] \<Longrightarrow> \<forall>w \<in> set ws. wide_is_token w \<Longrightarrow>
     wide_join [cp_space] ws \<noteq> [] \<and> hd (wide_join [cp_space] ws) = hd (hd ws)
     \<and> last (wide_join [cp_space] ws) = last (last ws)"
proof (induction "[cp_space]" ws rule: wide_join.induct)
  case 1
  then show ?case by simp
next
  case (2 w)
  then show ?case by (simp add: wide_is_token_def)
next
  case (3 w v vs)
  then have "w \<noteq> []" and "wide_join [cp_space] (v # vs) \<noteq> []"
    and "last (wide_join [cp_space] (v # vs)) = last (last (v # vs))"
    by (auto simp: wide_is_token_def)
  then show ?case by simp
qed

lemma wide_strip_join:
  assumes "\<forall>w \<in> set ws. wide_is_token w"
  shows "wide_strip (wide_join [cp_space] ws) = wide_join [cp_space] ws"
proof (cases ws)
  case Nil
  then show ?thesis by (simp add: wide_strip_def)
next
  case (Cons v vs)
  then have ne: "ws \<noteq> []" by simp
  have "wide_is_token (hd ws)" "wide_is_token (last ws)" using assms ne by auto
  then have "\<not> cp_isspace (hd (hd ws))" "\<not> cp_isspace (last (last ws))"
    by (auto simp: wide_is_token_def)
  then show ?thesis using wide_join_ends [OF ne assms] by (intro wide_strip_id) simp
qed

lemma set_wide_join: "set (wide_join sep ws) \<subseteq> set sep \<union> (\<Union>w \<in> set ws. set w)"
  by (induction sep ws rule: wide_join.induct) auto

lemma wide_filtered_tokens:
  "\<forall>w \<in> set (filter P (wide_split s)). wide_is_token w"
  by (auto intro: wide_split_is_token)

lemma wide_clean_text_Some:
  "fst (wide_clean_text st (Some t)) =
     wide_join [cp_space] (filter (\<lambda>w. w \<notin> set (map (map Latin1) (STOP_WORDS st)))
       (wide_split (wide_re_sub_punctuation (wide_lower t))))"
proof (cases "t = []")
  case True
  then show ?thesis
    by (simp add: wide_clean_text_def wide_lower_def wide_re_sub_punctuation_def wide_split_Nil)
next
  case False
  then show ?thesis
    by (simp add: wide_clean_text_def Let_def wide_strip_join wide_filtered_tokens)
qed

lemma wide_clean_Some:
  "wide_clean (Some t) =
     wide_join [cp_space] (filter (\<lambda>w. w \<notin> set (map (map Latin1) (STOP_WORDS module_init)))
       (wide_split (wide_re_sub_punctuation (wide_lower t))))"
  by (simp add: wide_clean_def wide_clean_text_Some)

lemma wide_clean_None: "wide_clean None = []"
  by (simp add: wide_clean_def wide_clean_text_def)

lemma wide_clean_chars:
  assumes "c \<in> set (wide_clean x)"
  shows "c = cp_space \<or> (\<exists>t. x = Some t \<and> c \<in> set (wide_re_sub_punctuation (wide_lower t)))"
proof (cases x)
  case None
  with assms show ?thesis by (simp add: wide_clean_None)
next
  case (Some t)
  let ?ws = "filter (\<lambda>w. w \<notin> set (map (map Latin1) (STOP_WORDS module_init)))
               (wide_split (wide_re_sub_punctuation (wide_lower t)))"
  from assms Some have "c \<in> set (wide_join [cp_space] ?ws)" by (simp add: wide_clean_Some)
  then have "c \<in> set [cp_space] \<union> (\<Union>w \<in> set ?ws. set w)"
    using set_wide_join [of "[cp_space]" ?ws] by blast
  then show ?thesis using Some wide_split_chars by fastforce
qed

lemma wide_clean_ends:
  assumes "wide_clean x \<noteq> []"
  shows "\<not> cp_isspace (hd (wide_clean x)) \<and> \<not> cp_isspace (last (wide_clean x))"
proof (cases x)
  case None
  with assms show ?thesis by (simp add: wide_clean_None)
next
  case (Some t)
  let ?ws = "filter (\<lambda>w. w \<notin> set (map (map Latin1) (STOP_WORDS module_init)))
               (wide_split (wide_re_sub_punctuation (wide_lower t)))"
  have c: "wide_clean x = wide_join [cp_space] ?ws" using Some by (simp add: wide_clean_Some)
  have tok: "\<forall>w \<in> set ?ws. wide_is_token w" by (rule wide_filtered_tokens)
  have ne: "?ws \<noteq> []" using assms c by auto
  then have "wide_is_token (hd ?ws)" "wide_is_token (last ?ws)" using tok by (auto simp del: set_filter)
  then have "\<not> cp_isspace (hd (hd ?ws))" "\<not> cp_isspace (last (last ?ws))"
    by (auto simp: wide_is_token_def)
  then show ?thesis using wide_join_ends [OF ne tok] c by simp
qed

lemma wide_dbl_skip:
  "cp_space \<notin> set w \<Longrightarrow> wide_double_space (w @ r) = wide_double_space r"
proof (induction w)
  case Nil
  then show ?case by simp
next
  case (Cons a w)
  then have a: "a \<noteq> cp_space" and IH: "wide_double_space (w @ r) = wide_double_space r" by auto
  show ?case
  proof (cases "w @ r")
    case Nil
    then show ?thesis by simp
  next
    case (Cons b s)
    then show ?thesis using a IH by simp
  qed
qed

lemma wide_dbl_append: "wide_double_space (u @ cp_space # cp_space # v)"
proof (induction u)
  case Nil
  then show ?case by simp
next
  case (Cons a u)
  then show ?case by (cases "u @ cp_space # cp_space # v") simp_all
qed

lemma wide_token_no_space: "wide_is_token w \<Longrightarrow> cp_space \<notin> set w"
  using cp_isspace_space by (auto simp: wide_is_token_def)

lemma wide_join_no_dbl:
  "\<forall>w \<in> set ws. wide_is_token w \<Longrightarrow> \<not> wide_double_space (wide_join [cp_space] ws)"
proof (induction "[cp_space]" ws rule: wide_join.induct)
  case 1
  then show ?case by simp
next
  case (2 w)
  then show ?case using wide_dbl_skip [of w "[]"] wide_token_no_space by simp
next
  case (3 w v vs)
  let ?J = "wide_join [cp_space] (v # vs)"
  have tok: "\<forall>w \<in> set (v # vs). wide_is_token w" using 3 by simp
  have J: "?J \<noteq> []" "hd ?J = hd v" using wide_join_ends [OF _ tok] by simp_all
  have "wide_is_token v" using 3 by simp
  then have "hd v \<noteq> cp_space" using wide_token_no_space [of v] by (cases v) (auto simp: wide_is_token_def)
  with J obtain j J' where Jc: "?J = j # J'" and j: "j \<noteq> cp_space" by (cases ?J) auto
  have "\<not> wide_double_space ?J" using 3 by simp
  then have "\<not> wide_double_space (cp_space # ?J)" using j unfolding Jc by simp
  moreover have "cp_space \<notin> set w" using 3 wide_token_no_space by simp
  ultimately have "\<not> wide_double_space (w @ cp_space # ?J)" by (simp add: wide_dbl_skip)
  then show ?case by simp
qed

lemma wide_clean_no_dbl: "\<not> wide_double_space (wide_clean x)"
proof (cases x)
  case None
  then show ?thesis by (simp add: wide_clean_None)
next
  case (Some t)
  then show ?thesis by (simp add: wide_clean_Some wide_join_no_dbl wide_filtered_tokens)
qed

lemma wide_re_sub_lower_chars:
  assumes "c \<in> set (wide_re_sub_punctuation (wide_lower t))"
  shows "\<not> cp_in_punctuation c \<and> cp_lower c = c \<and> (\<forall>a. c = Latin1 a \<longrightarrow> \<not> isupper a)"
proof -
  from assms obtain d where c: "c = cp_lower d" and p: "\<not> cp_in_punctuation c"
    by (auto simp: wide_re_sub_punctuation_def wide_lower_def)
  have "cp_lower c = c" unfolding c by (rule cp_lower_idem)
  moreover have "\<forall>a. c = Latin1 a \<longrightarrow> \<not> isupper a"
    using c cp_lower_latin1 [of d] by auto
  ultimately show ?thesis using p by simp
qed

lemma wide_clean_char_plain:
  assumes "c \<in> set (wide_clean x)"
  shows "\<not> cp_in_punctuation c \<and> cp_lower c = c \<and> (\<forall>a. c = Latin1 a \<longrightarrow> \<not> isupper a)"
proof -
  from wide_clean_chars [OF assms] show ?thesis
  proof
    assume "c = cp_space"
    then show ?thesis
      using cp_space_plain isspace_not_isupper [OF isspace_space] by (simp add: cp_space_def)
  next
    assume "\<exists>t. x = Some t \<and> c \<in> set (wide_re_sub_punctuation (wide_lower t))"
    then show ?thesis using wide_re_sub_lower_chars by blast
  qed
qed

section \<open>The two copies of the function agree\<close>

lemma cp_isspace_Latin1: "(\<lambda>x. cp_isspace (Latin1 x)) = isspace"
  by (rule ext) simp

lemma wide_lower_Latin1: "wide_lower (map Latin1 t) = map Latin1 (str_lower t)"
  by (simp add: wide_lower_def str_lower_def)

lemma wide_re_sub_Latin1:
  "wide_re_sub_punctuation (map Latin1 s) = map Latin1 (re_sub_punctuation s)"
  by (simp add: wide_re_sub_punctuation_def re_sub_punctuation_def filter_map comp_def)

lemma wide_split_Latin1: "wide_split (map Latin1 s) = map (map Latin1) (str_split s)"
proof (induction s rule: str_split.induct)
  case (1 s)
  define d where "d = dropWhile isspace s"
  have dw: "dropWhile cp_isspace (map Latin1 s) = map Latin1 d"
    by (simp add: dropWhile_map comp_def cp_isspace_Latin1 d_def)
  have l: "wide_split (map Latin1 s) =
             (case map Latin1 d of [] \<Rightarrow> []
              | c # cs \<Rightarrow> (c # takeWhile (\<lambda>x. \<not> cp_isspace x) cs)
                  # wide_split (dropWhile (\<lambda>x. \<not> cp_isspace x) cs))"
    by (subst wide_split.simps) (simp only: dw)
  have r: "str_split s =
             (case d of [] \<Rightarrow> []
              | c # cs \<Rightarrow> (c # takeWhile (\<lambda>x. \<not> isspace x) cs)
                  # str_split (dropWhile (\<lambda>x. \<not> isspace x) cs))"
    by (subst str_split.simps) (simp only: d_def)
  show ?case
  proof (cases d)
    case Nil
    then show ?thesis by (simp add: l r)
  next
    case (Cons c cs)
    have tw: "takeWhile (\<lambda>x. \<not> cp_isspace x) (map Latin1 cs)
                = map Latin1 (takeWhile (\<lambda>x. \<not> isspace x) cs)"
      by (simp add: takeWhile_map comp_def)
    have dw2: "dropWhile (\<lambda>x. \<not> cp_isspace x) (map Latin1 cs)
                = map Latin1 (dropWhile (\<lambda>x. \<not> isspace x) cs)"
      by (simp add: dropWhile_map comp_def)
    have "dropWhile isspace s = c # cs" using Cons by (simp add: d_def)
    then have IH: "wide_split (map Latin1 (dropWhile (\<lambda>x. \<not> isspace x) cs))
                     = map (map Latin1) (str_split (dropWhile (\<lambda>x. \<not> isspace x) cs))"
      by (rule "1.IH")
    show ?thesis by (simp add: l r Cons tw dw2 IH)
  qed
qed

lemma wide_join_Latin1:
  "wide_join [cp_space] (map (map Latin1) ws) = map Latin1 (str_join '' '' ws)"
  by (induction "'' ''" ws rule: str_join.induct) (simp_all add: cp_space_def)

lemma stop_filter_Latin1:
  "filter (\<lambda>w. w \<notin> set (map (map Latin1) S)) (map (map Latin1) ws)
     = map (map Latin1) (filter (\<lambda>w. w \<notin> set S) ws)"
proof -
  have inj: "inj (map Latin1)" by (simp add: inj_on_def)
  have "\<And>w. (map Latin1 w \<in> set (map (map Latin1) S)) = (w \<in> set S)"
    using inj by (auto simp: inj_on_def)
  then show ?thesis by (simp add: filter_map comp_def)
qed

lemma wide_clean_Latin1: "wide_clean (Some (map Latin1 t)) = map Latin1 (clean (Some t))"
proof -
  have "wide_clean (Some (map Latin1 t)) =
          wide_join [cp_space]
            (filter (\<lambda>w. w \<notin> set (map (map Latin1) (STOP_WORDS module_init)))
               (map (map Latin1) (str_split (re_sub_punctuation (str_lower t)))))"
    by (simp only: wide_clean_Some wide_lower_Latin1 wide_re_sub_Latin1 wide_split_Latin1)
  also have "\<dots> = map Latin1 (str_join '' ''
                 (filter (\<lambda>w. w \<notin> set (STOP_WORDS module_init))
                    (str_split (re_sub_punctuation (str_lower t)))))"
    by (simp only: stop_filter_Latin1 wide_join_Latin1)
  finally show ?thesis by (simp only: clean_Some)
qed

lemma wide_clean_Latin1_lower:
  assumes "c \<in> set (wide_clean (Some (map Latin1 t)))"
  shows "\<not> cp_isupper c"
proof -
  from assms obtain a where "c = Latin1 a" and "a \<in> set (clean (Some t))"
    by (auto simp: wide_clean_Latin1)
  then show ?thesis using clean_char_plain [of a "Some t"] by simp
qed

section \<open>The examples of the specification\<close>

text \<open>
  C7: \<open>clean\<close> maps \<open>"Help! I think i got my ribs fractured."\<close> to \<open>"ribs fractured"\<close>,
  \<open>"I have a minor cut on my finger."\<close> to \<open>"have minor cut on finger"\<close>, and the string
  of three spaces to the empty string.
\<close>

theorem clean_examples:
  "clean (Some ''Help! I think i got my ribs fractured.'') = ''ribs fractured''
   \<and> clean (Some ''I have a minor cut on my finger.'') = ''have minor cut on finger''
   \<and> clean (Some ''   '') = []"
  by code_simp

section \<open>Absent and empty input\<close>

text \<open>
  C5: for \<open>None\<close> and for the empty string the result is the empty string. The guard
  returns at once, in any module state and without touching it, and no branch of the
  function raises.
\<close>

theorem clean_absent_or_empty:
  "clean None = [] \<and> clean (Some []) = []
   \<and> clean_text st None = ([], st) \<and> clean_text st (Some []) = ([], st)"
  by (simp add: clean_def clean_text_def)

section \<open>Input of whitespace and punctuation only\<close>

text \<open>
  C10: a string whose characters are all whitespace or ASCII punctuation is cleaned to
  the empty string, also when it is not empty and so passes the guard: once the
  punctuation is deleted the split finds no word.
\<close>

theorem clean_whitespace_punctuation_only:
  assumes "\<forall>c \<in> set s. isspace c \<or> c \<in> set punctuation"
  shows "clean (Some s) = []"
proof -
  have "\<forall>c \<in> set s. lower_char c = c"
    using assms isspace_not_isupper punctuation_not_isupper lower_char_fixed by blast
  then have "str_lower s = s" by (simp add: str_lower_def map_idI)
  moreover have "\<forall>c \<in> set (re_sub_punctuation s). isspace c"
    using assms by (auto simp: re_sub_punctuation_def)
  ultimately show ?thesis by (simp add: clean_Some str_split_only_space)
qed

theorem clean_whitespace_punctuation_only_witness:
  "clean (Some ''!!! ???'') = []"
proof -
  have h: "\<forall>c \<in> set ''!!! ???''. isspace c \<or> c \<in> set punctuation"
    by (simp add: isspace_def punctuation_def)
  show ?thesis using clean_whitespace_punctuation_only [OF h] by simp
qed

section \<open>Shape of the result\<close>

text \<open>
  C4, as amended: for every input, the result holds no character of the ASCII punctuation
  set, and every character of it is left unchanged by lowercasing, so it holds no
  uppercase letter of U+0000 .. U+00FF; when all code points of the input are in that
  range the result holds no uppercase letter at all (stated for both copies of the
  function, which agree on such input). The result neither starts nor ends
  with whitespace and nowhere has two space characters side by side. An uppercase letter
  without a lowercase form is kept, as the example after the theorem shows.
\<close>

theorem wide_clean_output_shape:
  "(\<forall>c \<in> set (wide_clean x). \<not> cp_in_punctuation c \<and> cp_lower c = c)
   \<and> (\<forall>a. Latin1 a \<in> set (wide_clean x) \<longrightarrow> \<not> isupper a)
   \<and> (\<forall>c \<in> set (wide_clean (Some (map Latin1 t))). \<not> cp_isupper c)
   \<and> (\<forall>c \<in> set (clean y). c \<notin> set punctuation \<and> \<not> isupper c)
   \<and> (wide_clean x \<noteq> [] \<longrightarrow>
        \<not> cp_isspace (hd (wide_clean x)) \<and> \<not> cp_isspace (last (wide_clean x)))
   \<and> (\<forall>u v. wide_clean x \<noteq> u @ [cp_space, cp_space] @ v)"
proof (intro conjI)
  show "\<forall>c \<in> set (wide_clean x). \<not> cp_in_punctuation c \<and> cp_lower c = c"
    using wide_clean_char_plain by blast
  show "\<forall>a. Latin1 a \<in> set (wide_clean x) \<longrightarrow> \<not> isupper a"
    using wide_clean_char_plain by blast
  show "\<forall>c \<in> set (wide_clean (Some (map Latin1 t))). \<not> cp_isupper c"
    using wide_clean_Latin1_lower by blast
  show "\<forall>c \<in> set (clean y). c \<notin> set punctuation \<and> \<not> isupper c"
    using clean_char_plain by blast
  show "wide_clean x \<noteq> [] \<longrightarrow>
        \<not> cp_isspace (hd (wide_clean x)) \<and> \<not> cp_isspace (last (wide_clean x))"
    using wide_clean_ends by blast
  show "\<forall>u v. wide_clean x \<noteq> u @ [cp_space, cp_space] @ v"
  proof (intro allI notI)
    fix u v
    assume "wide_clean x = u @ [cp_space, cp_space] @ v"
    then have "wide_double_space (wide_clean x)" using wide_dbl_append [of u v] by simp
    then show False using wide_clean_no_dbl by simp
  qed
qed

theorem wide_clean_output_shape_witness:
  "wide_clean (Some ([U2102] @ map Latin1 '' is BIG.'')) = [U2102] @ map Latin1 '' big''
   \<and> cp_lower U2102 = U2102 \<and> \<not> cp_in_punctuation U2102
   \<and> \<not> isupper (CHR ''b'')
   \<and> clean (Some ''Don't stop.'') = ''dont stop''
   \<and> wide_clean (Some (map Latin1 ''Don't stop.'')) = map Latin1 ''dont stop''
   \<and> \<not> cp_isupper (Latin1 (CHR ''d''))
   \<and> CHR ''d'' \<notin> set punctuation \<and> \<not> isupper (CHR ''d'')
   \<and> \<not> cp_isspace (hd (wide_clean (Some ([U2102] @ map Latin1 '' is BIG.''))))
   \<and> \<not> cp_isspace (last (wide_clean (Some ([U2102] @ map Latin1 '' is BIG.''))))"
proof -
  have e: "wide_clean (Some ([U2102] @ map Latin1 '' is BIG.'')) = [U2102] @ map Latin1 '' big''"
    by code_simp
  have m: "U2102 \<in> set (wide_clean (Some ([U2102] @ map Latin1 '' is BIG.'')))"
    and b: "Latin1 (CHR ''b'') \<in> set (wide_clean (Some ([U2102] @ map Latin1 '' is BIG.'')))"
    and n: "wide_clean (Some ([U2102] @ map Latin1 '' is BIG.'')) \<noteq> []"
    unfolding e by simp_all
  have f: "clean (Some ''Don't stop.'') = ''dont stop''" by code_simp
  have d: "CHR ''d'' \<in> set (clean (Some ''Don't stop.''))" unfolding f by simp
  have g: "wide_clean (Some (map Latin1 ''Don't stop.'')) = map Latin1 ''dont stop''"
    by code_simp
  have h: "Latin1 (CHR ''d'') \<in> set (wide_clean (Some (map Latin1 ''Don't stop.'')))"
    unfolding g by simp
  show ?thesis
    using e m b n f d g h
      wide_clean_output_shape [of "Some ([U2102] @ map Latin1 '' is BIG.'')" "''Don't stop.''"
        "Some ''Don't stop.''"]
    by blast
qed

text \<open>
  The claim as it was written, with "no uppercase letter" for every input, fails: for the
  four code points U+2102, space, \<open>i\<close>, \<open>s\<close> the stop word is dropped and U+2102 is
  returned, and U+2102 is an uppercase letter.
\<close>

theorem uppercase_kept_counterexample:
  "wide_clean (Some [U2102, Latin1 CHR '' '', Latin1 CHR ''i'', Latin1 CHR ''s'']) = [U2102]
   \<and> cp_isupper U2102"
  by code_simp

section \<open>Idempotence\<close>

text \<open>
  C6: cleaning a cleaned string changes nothing: \<open>clean(clean(x)) == clean(x)\<close> for every
  input \<open>x\<close>.
\<close>

theorem clean_idempotent: "clean (Some (clean x)) = clean x"
proof (cases x)
  case None
  then show ?thesis by (simp add: clean_None clean_Some str_lower_def re_sub_punctuation_def str_split_Nil)
next
  case (Some t)
  let ?P = "\<lambda>w. w \<notin> set (STOP_WORDS module_init)"
  let ?ws = "filter ?P (str_split (re_sub_punctuation (str_lower t)))"
  have c: "clean x = str_join '' '' ?ws" using Some by (simp add: clean_Some)
  have "clean (Some (clean x)) = str_join '' '' (filter ?P (str_split (clean x)))"
    by (simp add: clean_Some [of "clean x"] clean_fixed_chars)
  also have "str_split (clean x) = ?ws"
    unfolding c by (rule str_split_join) (rule filtered_tokens)
  also have "filter ?P ?ws = ?ws" by simp
  finally show ?thesis using c by simp
qed

section \<open>The function against the pipeline of the specification\<close>

text \<open>
  C1: for every string that is not empty, \<open>clean\<close> returns what the reference pipeline
  returns: lowercase the string, delete every ASCII punctuation character, split on runs
  of whitespace discarding empty tokens, drop the tokens of the stop-word set, and join
  the rest with single spaces in their order.
\<close>

theorem clean_is_reference_pipeline:
  "t \<noteq> [] \<Longrightarrow> clean (Some t) = spec_clean t"
  by (simp add: clean_Some spec_clean_def spec_join_str_join spec_tokens_str_split
        re_sub_punctuation_def punctuation_spec stop_words_spec)

theorem clean_is_reference_pipeline_witness:
  "''Please help, somebody is choking!'' \<noteq> []
   \<and> clean (Some ''Please help, somebody is choking!'') = spec_clean ''Please help, somebody is choking!''
   \<and> spec_clean ''Please help, somebody is choking!'' = ''choking''"
proof -
  have h: "''Please help, somebody is choking!'' \<noteq> []" by simp
  have e: "spec_clean ''Please help, somebody is choking!'' = ''choking''" by code_simp
  show ?thesis using h e clean_is_reference_pipeline [OF h] by simp
qed

section \<open>Stop words\<close>

text \<open>
  C2: the stop-word list holds exactly the 16 lowercase words \<open>help, i, think, got, my,
  me, the, a, an, please, somebody, do, does, is, am, are\<close>, and for every input no
  standalone space-delimited token of the result equals one of them, letter case ignored
  (two strings are equal in that sense when \<open>str.lower\<close> maps them to the same string).
\<close>

theorem stop_words_never_in_result:
  "set (STOP_WORDS module_init) = spec_stop_words
   \<and> length (STOP_WORDS module_init) = 16 \<and> distinct (STOP_WORDS module_init)
   \<and> (\<forall>sw \<in> spec_stop_words. str_lower sw = sw)
   \<and> (\<forall>w \<in> set (space_tokens (clean x)). \<forall>sw \<in> spec_stop_words. str_lower w \<noteq> str_lower sw)"
proof (intro conjI)
  show "set (STOP_WORDS module_init) = spec_stop_words" by (rule stop_words_spec)
  show "length (STOP_WORDS module_init) = 16" by (simp add: module_init_def)
  show "distinct (STOP_WORDS module_init)" by (simp add: module_init_def)
  show "\<forall>sw \<in> spec_stop_words. str_lower sw = sw" using stop_words_lower by blast
  show "\<forall>w \<in> set (space_tokens (clean x)). \<forall>sw \<in> spec_stop_words. str_lower w \<noteq> str_lower sw"
    using space_tokens_clean stop_words_lower by metis
qed

theorem stop_words_never_in_result_witness:
  "''now'' \<in> set (space_tokens (clean (Some ''Help ME, now!''))) \<and> ''me'' \<in> spec_stop_words
   \<and> str_lower ''me'' = ''me'' \<and> str_lower ''now'' \<noteq> str_lower ''me''"
proof -
  have e: "space_tokens (clean (Some ''Help ME, now!'')) = [''now'']" by code_simp
  have m: "''now'' \<in> set (space_tokens (clean (Some ''Help ME, now!'')))" by (simp add: e)
  have n: "''me'' \<in> spec_stop_words" by (simp add: spec_stop_words_def)
  show ?thesis using m n stop_words_never_in_result [of "Some ''Help ME, now!''"] by blast
qed

section \<open>Punctuation is deleted, not replaced\<close>

text \<open>
  C3: the punctuation set has 32 characters, and each is removed by deletion, with no
  space put in its place (what is left of a string is its other characters, and the
  lengths add up): two runs of characters that are neither whitespace nor
  punctuation (alphanumeric runs among them), with only punctuation between them, come
  out as one token, the lowercased runs side by side, which is the result of \<open>clean\<close>
  unless it is a stop word. In particular \<open>clean("Don't stop.") == "dont stop"\<close>.
\<close>

theorem punctuation_deleted_not_spaced:
  assumes "set p \<subseteq> set punctuation"
    and "\<forall>c \<in> set (u @ v). \<not> isspace c \<and> c \<notin> set punctuation"
    and "u @ v \<noteq> []"
  shows "length punctuation = 32 \<and> distinct punctuation
    \<and> set (re_sub_punctuation s) = set s - set punctuation
    \<and> length (re_sub_punctuation s) + length (filter (\<lambda>c. c \<in> set punctuation) s) = length s
    \<and> re_sub_punctuation (u @ p @ v) = u @ v
    \<and> str_split (re_sub_punctuation (str_lower (u @ p @ v))) = [str_lower (u @ v)]
    \<and> clean (Some (u @ p @ v)) =
        (if str_lower (u @ v) \<in> set (STOP_WORDS module_init) then [] else str_lower (u @ v))
    \<and> clean (Some ''Don't stop.'') = ''dont stop''"
proof -
  have a: "length punctuation = 32 \<and> distinct punctuation" by (simp add: punctuation_def)
  have a1: "set (re_sub_punctuation s) = set s - set punctuation"
    by (auto simp: re_sub_punctuation_def)
  have a2: "length (re_sub_punctuation s) + length (filter (\<lambda>c. c \<in> set punctuation) s) = length s"
    using sum_length_filter_compl [of "\<lambda>c. c \<in> set punctuation" s]
    by (simp add: re_sub_punctuation_def)
  have b: "re_sub_punctuation (u @ p @ v) = u @ v"
    using assms by (simp add: re_sub_punctuation_append re_sub_punctuation_all re_sub_punctuation_none)
  have plain: "\<forall>c \<in> set (str_lower (u @ v)). \<not> isspace c \<and> c \<notin> set punctuation"
    using assms(2) lower_char_plain unfolding str_lower_def by (metis (no_types, lifting) imageE list.set_map)
  have "str_lower (u @ p @ v) = str_lower u @ p @ str_lower v"
    using str_lower_punctuation [OF assms(1)] by (simp add: str_lower_def)
  then have "re_sub_punctuation (str_lower (u @ p @ v)) = str_lower (u @ v)"
    using plain assms(1)
    by (simp add: re_sub_punctuation_append re_sub_punctuation_all re_sub_punctuation_none str_lower_def)
  moreover have "is_token (str_lower (u @ v))"
    using plain assms(3) by (simp add: is_token_def str_lower_def)
  then have "str_split (str_lower (u @ v)) = [str_lower (u @ v)]"
    using str_split_token_append [of "str_lower (u @ v)" "[]"] by (simp add: str_split_Nil)
  ultimately have c: "str_split (re_sub_punctuation (str_lower (u @ p @ v))) = [str_lower (u @ v)]"
    by simp
  have d: "clean (Some (u @ p @ v)) =
        (if str_lower (u @ v) \<in> set (STOP_WORDS module_init) then [] else str_lower (u @ v))"
    by (simp add: clean_Some c)
  have e: "clean (Some ''Don't stop.'') = ''dont stop''" by code_simp
  show ?thesis using a a1 a2 b c d e by simp
qed

theorem punctuation_deleted_not_spaced_witness:
  "set (re_sub_punctuation ''Good-bye'') = set ''Good-bye'' - set punctuation
   \<and> re_sub_punctuation (''Good'' @ ''-'' @ ''bye'') = ''Goodbye''
   \<and> str_split (re_sub_punctuation (str_lower (''Good'' @ ''-'' @ ''bye''))) = [''goodbye'']
   \<and> clean (Some (''Good'' @ ''-'' @ ''bye'')) = ''goodbye''"
proof -
  have h1: "set ''-'' \<subseteq> set punctuation" by (simp add: punctuation_def)
  have h2: "\<forall>c \<in> set (''Good'' @ ''bye''). \<not> isspace c \<and> c \<notin> set punctuation"
    by (simp add: isspace_def punctuation_def)
  have h3: "''Good'' @ ''bye'' \<noteq> []" by simp
  have l: "str_lower (''Good'' @ ''bye'') = ''goodbye''" by code_simp
  have n: "''goodbye'' \<notin> set (STOP_WORDS module_init)" by (simp add: module_init_def)
  note T = punctuation_deleted_not_spaced [OF h1 h2 h3, of "''Good-bye''"]
  have 1: "set (re_sub_punctuation ''Good-bye'') = set ''Good-bye'' - set punctuation"
    using T by blast
  have 2: "re_sub_punctuation (''Good'' @ ''-'' @ ''bye'') = ''Goodbye''"
    using T by simp
  have 3: "str_split (re_sub_punctuation (str_lower (''Good'' @ ''-'' @ ''bye''))) = [''goodbye'']"
    using T l by simp
  have 4: "clean (Some (''Good'' @ ''-'' @ ''bye'')) = ''goodbye''"
    using T l n by simp
  show ?thesis using 1 2 3 4 by blast
qed

section \<open>Termination\<close>

text \<open>
  C8: \<open>clean\<close> returns for every input. The one loop of the function is the scan of
  \<open>str.split()\<close>, whose recursion is well-founded at every string; the other steps are
  single passes over a list. So each call has a result, in every module state.
\<close>

theorem clean_text_terminates:
  "str_split_dom s \<and> (\<exists>out. clean_text st text = (out, st)) \<and> (\<exists>out. clean text = out)"
  using str_split_total clean_text_state [of st "text"] by (cases "clean_text st text") auto

section \<open>Purity\<close>

text \<open>
  C9: a call leaves the module state as it found it (the stop-word list is not changed
  and nothing is printed), and its result depends only on the input and on the
  stop-word list: two states with the same list give the same result for the same input.
\<close>

theorem clean_text_pure:
  "snd (clean_text st text) = st
   \<and> (STOP_WORDS st = STOP_WORDS st' \<longrightarrow> fst (clean_text st text) = fst (clean_text st' text))"
proof (intro conjI impI)
  show "snd (clean_text st text) = st" by (rule clean_text_state)
  assume "STOP_WORDS st = STOP_WORDS st'"
  then show "fst (clean_text st text) = fst (clean_text st' text)"
    by (cases "text") (simp_all add: clean_text_def Let_def)
qed

theorem clean_text_pure_witness:
  "STOP_WORDS module_init = STOP_WORDS (module_init\<lparr>stdout := [''Testing Preprocessing Logic:'']\<rparr>)
   \<and> module_init \<noteq> module_init\<lparr>stdout := [''Testing Preprocessing Logic:'']\<rparr>
   \<and> fst (clean_text module_init (Some ''Please help, somebody is choking!''))
       = fst (clean_text (module_init\<lparr>stdout := [''Testing Preprocessing Logic:'']\<rparr>)
              (Some ''Please help, somebody is choking!''))
   \<and> snd (clean_text module_init (Some ''Please help, somebody is choking!'')) = module_init"
proof -
  have h: "STOP_WORDS module_init = STOP_WORDS (module_init\<lparr>stdout := [''Testing Preprocessing Logic:'']\<rparr>)"
    by simp
  have d: "module_init \<noteq> module_init\<lparr>stdout := [''Testing Preprocessing Logic:'']\<rparr>"
    by (simp add: module_init_def)
  show ?thesis
    using h d clean_text_pure [of module_init "Some ''Please help, somebody is choking!''"
        "module_init\<lparr>stdout := [''Testing Preprocessing Logic:'']\<rparr>"]
    by blast
qed

end
